theory Spec2Isabelle
  imports Main "HOL-Library.Sublist" "HOL-Library.Char_ord" "HOL-Library.List_Lexorder"
begin

section \<open>Task bundle cache (src/agent/taskmanager.ts)\<close>

text \<open>
  A path is the list of its segments, as \<open>path.resolve\<close> returns it for segments that
  hold no separator; the file system is the set of the paths that exist. Error values are
  their messages. JavaScript compares strings by code unit, which is the lexicographic
  order of \<open>char list\<close>. An object used as a dictionary is a map of its own properties;
  the operator \<open>in\<close> also finds the properties that every object inherits. Calls of the
  tracing sink are left out.
\<close>

type_synonym path = "string list"

type_synonym filesystem = "path set"

record TaskInstance =
  ti_id :: string
  ti_name :: string
  ti_version :: string

record 'v TaskDefinition =
  td_id :: string
  td_name :: string
  td_version :: 'v

datatype js_error = TypeError

datatype promise = Pending | Resolved | Rejected string

text \<open>A deferred of Q settles once: a later resolve or reject is ignored.\<close>

definition resolve :: "promise \<Rightarrow> promise" where
  "resolve p = (if p = Pending then Resolved else p)"

definition reject :: "string \<Rightarrow> promise \<Rightarrow> promise" where
  "reject e p = (if p = Pending then Rejected e else p)"

definition existsSync :: "path \<Rightarrow> filesystem \<Rightarrow> bool" where
  "existsSync p files = (p \<in> files)"

definition mkdir_p :: "path \<Rightarrow> filesystem \<Rightarrow> filesystem" where
  "mkdir_p p files = files \<union> set (prefixes p)"

definition rm_rf :: "path \<Rightarrow> filesystem \<Rightarrow> filesystem" where
  "rm_rf p files = Set.filter (\<lambda>q. \<not> prefix p q) files"

text \<open>The calls the task manager makes, in the order it makes them.\<close>

datatype tm_call =
    GetTasks
  | EnsureTasksExist "TaskInstance list"
  | EnsureTaskExists TaskInstance
  | DownloadTask string string path
  | ExtractFile path path

record tm_state =
  files :: filesystem
  calls :: "tm_call list"

text \<open>
  What the collaborators outside this file answer: the download API (its error, and whether
  it wrote the archive), \<open>cm.extractFile\<close> (its error, and the files it wrote below the
  target directory before it called back), the catalog listing (its error and its task
  list, \<open>None\<close> for \<open>null\<close>) and \<open>cm.versionStringFromTaskDef\<close>.
\<close>

record download_result =
  dl_err :: "string option"
  dl_wrote :: bool

record extract_result =
  ex_err :: "string option"
  ex_files :: "path list"

record 'v getTasks_result =
  gt_err :: "string option"
  gt_tasks :: "'v TaskDefinition list option"

record 'v tm_env =
  taskFolder :: path
  versionStringFromTaskDef :: "'v TaskDefinition \<Rightarrow> string"
  getTasks :: "'v getTasks_result"
  download :: "TaskInstance \<Rightarrow> download_result"
  extractFile :: "TaskInstance \<Rightarrow> extract_result"

definition getTaskPath :: "('v, 'x) tm_env_scheme \<Rightarrow> TaskInstance \<Rightarrow> path" where
  "getTaskPath env task = taskFolder env @ [ti_name task, ti_version task]"

text \<open>\<open>taskPath + '.zip'\<close>: the suffix goes to the last segment.\<close>

definition zipPath :: "path \<Rightarrow> path" where
  "zipPath p = (if p = [] then [''.zip''] else butlast p @ [last p @ ''.zip''])"

definition getTaskInstance :: "('v, 'x) tm_env_scheme \<Rightarrow> 'v TaskDefinition \<Rightarrow> TaskInstance" where
  "getTaskInstance env task =
     \<lparr>ti_id = td_id task, ti_name = td_name task,
      ti_version = versionStringFromTaskDef env task\<rparr>"

definition hasTask :: "('v, 'x) tm_env_scheme \<Rightarrow> TaskInstance \<Rightarrow> filesystem \<Rightarrow> bool" where
  "hasTask env task fls = (if existsSync (getTaskPath env task) fls then True else False)"

text \<open>
  \<open>downloadTask\<close> up to the point where it hands the request to the download API and
  returns its promise: the directory is made at once.
\<close>

definition downloadTask_begin :: "('v, 'x) tm_env_scheme \<Rightarrow> TaskInstance \<Rightarrow> tm_state \<Rightarrow> tm_state" where
  "downloadTask_begin env task s =
     (let taskPath = getTaskPath env task in
      s\<lparr>files := mkdir_p taskPath (files s),
        calls := calls s @ [DownloadTask (ti_id task) (ti_version task) (zipPath taskPath)]\<rparr>)"

text \<open>
  The two callbacks of \<open>downloadTask\<close>. Neither \<open>if (err)\<close> returns: after a failed
  download the extraction is still started, and after a failed extraction the archive is
  still removed and \<open>deferred.resolve\<close> still called (on a promise that is settled by then).
\<close>

definition downloadTask_finish ::
  "('v, 'x) tm_env_scheme \<Rightarrow> TaskInstance \<Rightarrow> tm_state \<Rightarrow> tm_state \<times> promise" where
  "downloadTask_finish env task s =
     (let taskPath = getTaskPath env task;
          zip = zipPath taskPath;
          d = download env task;
          files1 = (if dl_wrote d then insert zip (files s) else files s);
          p1 = (case dl_err d of Some err \<Rightarrow> reject err Pending | None \<Rightarrow> Pending);
          x = extractFile env task;
          files2 = files1 \<union> (\<lambda>r. taskPath @ r) ` set (ex_files x);
          (files3, p2) =
            (case ex_err x of
               Some err \<Rightarrow> (rm_rf taskPath files2, reject err p1)
             | None \<Rightarrow> (files2, p1));
          files4 = rm_rf zip files3;
          p3 = resolve p2
      in (s\<lparr>files := files4, calls := calls s @ [ExtractFile zip taskPath]\<rparr>, p3))"

definition downloadTask ::
  "('v, 'x) tm_env_scheme \<Rightarrow> TaskInstance \<Rightarrow> tm_state \<Rightarrow> tm_state \<times> promise" where
  "downloadTask env task s = downloadTask_finish env task (downloadTask_begin env task s)"

text \<open>
  A promise that \<open>ensureTaskExists\<close> returned: settled already, or waiting for the
  callbacks of the download it started.
\<close>

datatype ticket = Settled promise | Downloading TaskInstance

definition ensureTaskExists_begin ::
  "('v, 'x) tm_env_scheme \<Rightarrow> TaskInstance \<Rightarrow> tm_state \<Rightarrow> tm_state \<times> ticket" where
  "ensureTaskExists_begin env task s =
     (let s1 = s\<lparr>calls := calls s @ [EnsureTaskExists task]\<rparr> in
      if \<not> hasTask env task (files s1)
      then (downloadTask_begin env task s1, Downloading task)
      else (s1, Settled Resolved))"

definition ticket_finish ::
  "('v, 'x) tm_env_scheme \<Rightarrow> ticket \<Rightarrow> tm_state \<Rightarrow> tm_state \<times> promise" where
  "ticket_finish env t s =
     (case t of Settled p \<Rightarrow> (s, p) | Downloading task \<Rightarrow> downloadTask_finish env task s)"

definition ensureTaskExists ::
  "('v, 'x) tm_env_scheme \<Rightarrow> TaskInstance \<Rightarrow> tm_state \<Rightarrow> tm_state \<times> promise" where
  "ensureTaskExists env task s =
     (case ensureTaskExists_begin env task s of (s1, t) \<Rightarrow> ticket_finish env t s1)"

text \<open>
  The names that \<open>Object.prototype\<close> defines in Node: \<open>k in {}\<close> is true for each of
  them, and reading such a key from an object that does not set it gives the inherited
  value, a function or an object and never an array index.
\<close>

definition object_prototype_names :: "string list" where
  "object_prototype_names =
     [''constructor'', ''toString'', ''toLocaleString'', ''valueOf'', ''hasOwnProperty'',
      ''isPrototypeOf'', ''propertyIsEnumerable'', ''__proto__'', ''__defineGetter__'',
      ''__defineSetter__'', ''__lookupGetter__'', ''__lookupSetter__'']"

definition js_in :: "string \<Rightarrow> (string \<rightharpoonup> 'a) \<Rightarrow> bool" where
  "js_in k obj = (obj k \<noteq> None \<or> k \<in> set object_prototype_names)"

text \<open>The loop of \<open>ensureTasksExist\<close> that fills \<open>alreadyAdded\<close> and \<open>uniqueTasks\<close>.\<close>

fun uniqueTasks_loop ::
  "TaskInstance list \<Rightarrow> (string \<rightharpoonup> bool) \<Rightarrow> TaskInstance list \<Rightarrow> TaskInstance list" where
  "uniqueTasks_loop [] alreadyAdded uniqueTasks = uniqueTasks"
| "uniqueTasks_loop (task # rest) alreadyAdded uniqueTasks =
     (let idVersion = ti_id task @ '':'' @ ti_version task in
      if \<not> js_in idVersion alreadyAdded
      then uniqueTasks_loop rest (alreadyAdded(idVersion \<mapsto> True)) (uniqueTasks @ [task])
      else uniqueTasks_loop rest alreadyAdded uniqueTasks)"

text \<open>\<open>tasks.map\<close>: every call runs to the point where it returns its promise.\<close>

fun begin_all ::
  "('v, 'x) tm_env_scheme \<Rightarrow> TaskInstance list \<Rightarrow> tm_state \<Rightarrow> tm_state \<times> ticket list" where
  "begin_all env [] s = (s, [])"
| "begin_all env (task # rest) s =
     (case ensureTaskExists_begin env task s of
        (s1, t) \<Rightarrow> (case begin_all env rest s1 of (s2, ts) \<Rightarrow> (s2, t # ts)))"

text \<open>The callbacks of the downloads that were started, in the order of their requests.\<close>

fun finish_all ::
  "('v, 'x) tm_env_scheme \<Rightarrow> ticket list \<Rightarrow> tm_state \<Rightarrow> tm_state \<times> promise list" where
  "finish_all env [] s = (s, [])"
| "finish_all env (t # ts) s =
     (case ticket_finish env t s of
        (s1, p) \<Rightarrow> (case finish_all env ts s1 of (s2, ps) \<Rightarrow> (s2, p # ps)))"

fun is_rejected :: "promise \<Rightarrow> bool" where
  "is_rejected (Rejected e) = True"
| "is_rejected p = False"

definition Q_all :: "promise list \<Rightarrow> promise" where
  "Q_all ps =
     (case filter is_rejected ps of
        r # rs \<Rightarrow> r
      | [] \<Rightarrow> if Pending \<in> set ps then Pending else Resolved)"

text \<open>
  \<open>ensureTasksExist\<close>: \<open>uniqueTasks\<close> is computed, and the calls are mapped over \<open>tasks\<close>.
\<close>

definition ensureTasksExist ::
  "('v, 'x) tm_env_scheme \<Rightarrow> TaskInstance list \<Rightarrow> tm_state \<Rightarrow> tm_state \<times> promise" where
  "ensureTasksExist env tasks s =
     (let s0 = s\<lparr>calls := calls s @ [EnsureTasksExist tasks]\<rparr>;
          uniqueTasks = uniqueTasks_loop tasks Map.empty []
      in case begin_all env tasks s0 of
           (s1, ts) \<Rightarrow> (case finish_all env ts s1 of (s2, ps) \<Rightarrow> (s2, Q_all ps)))"

text \<open>
  The loop of \<open>ensureLatestExist\<close> over the catalog. \<open>None\<close> is the TypeError of reading
  \<open>.version\<close> of \<open>undefined\<close>: \<open>latestTasks[latestIndex[task.id]]\<close> is \<open>undefined\<close> when
  the index is beyond the array, and when \<open>task.id\<close> is a name that \<open>latestIndex\<close> only
  inherits, so that what is read from it is no index.
\<close>

fun latest_loop ::
  "('v, 'x) tm_env_scheme \<Rightarrow> 'v TaskDefinition list \<Rightarrow> (string \<rightharpoonup> nat) \<Rightarrow> TaskInstance list
     \<Rightarrow> TaskInstance list option" where
  "latest_loop env [] latestIndex latestTasks = Some latestTasks"
| "latest_loop env (task # rest) latestIndex latestTasks =
     (if \<not> js_in (td_id task) latestIndex then
        latest_loop env rest (latestIndex(td_id task \<mapsto> length latestTasks))
          (latestTasks @ [getTaskInstance env task])
      else
        (case latestIndex (td_id task) of
           None \<Rightarrow> None
         | Some i \<Rightarrow>
             if i < length latestTasks then
               (if versionStringFromTaskDef env task > ti_version (latestTasks ! i)
                then latest_loop env rest latestIndex (latestTasks[i := getTaskInstance env task])
                else latest_loop env rest latestIndex latestTasks)
             else None))"

text \<open>
  \<open>ensureLatestExist\<close>: the state after the callback of \<open>getTasks\<close> and everything it
  starts, the promise that was returned, and the error the callback threw, if any.
  \<open>if (err)\<close> rejects and does not return.
\<close>

definition ensureLatestExist ::
  "('v, 'x) tm_env_scheme \<Rightarrow> tm_state \<Rightarrow> tm_state \<times> promise \<times> js_error option" where
  "ensureLatestExist env s =
     (let s0 = s\<lparr>calls := calls s @ [GetTasks]\<rparr>;
          p1 = (case gt_err (getTasks env) of Some err \<Rightarrow> reject err Pending | None \<Rightarrow> Pending)
      in case gt_tasks (getTasks env) of
           None \<Rightarrow> (s0, p1, Some TypeError)
         | Some tasks \<Rightarrow>
             (case latest_loop env tasks Map.empty [] of
                None \<Rightarrow> (s0, p1, Some TypeError)
              | Some latestTasks \<Rightarrow>
                  (case ensureTasksExist env latestTasks s0 of
                     (s1, q) \<Rightarrow>
                       (s1,
                        (case q of
                           Resolved \<Rightarrow> resolve p1
                         | Rejected err \<Rightarrow> reject err p1
                         | Pending \<Rightarrow> p1),
                        None))))"

text \<open>Reading the call log: the tasks handed to \<open>ensureTaskExists\<close>, the (id, version)
  pairs handed to the download API, and the lists handed to \<open>ensureTasksExist\<close>.\<close>

fun ensure_calls :: "tm_call list \<Rightarrow> TaskInstance list" where
  "ensure_calls [] = []"
| "ensure_calls (EnsureTaskExists t # cs) = t # ensure_calls cs"
| "ensure_calls (c # cs) = ensure_calls cs"

fun download_calls :: "tm_call list \<Rightarrow> (string \<times> string) list" where
  "download_calls [] = []"
| "download_calls (DownloadTask i v z # cs) = (i, v) # download_calls cs"
| "download_calls (c # cs) = download_calls cs"

fun ensureTasksExist_calls :: "tm_call list \<Rightarrow> TaskInstance list list" where
  "ensureTasksExist_calls [] = []"
| "ensureTasksExist_calls (EnsureTasksExist ts # cs) = ts # ensureTasksExist_calls cs"
| "ensureTasksExist_calls (c # cs) = ensureTasksExist_calls cs"

text \<open>
  The invariant of the catalog loop after the entries \<open>seen\<close>: \<open>latestIndex\<close> and
  \<open>latestTasks\<close> point at each other, every id seen has a slot, and every slot holds an
  entry seen whose version is greatest among the entries seen with its id.
\<close>

definition latest_inv ::
  "('v, 'x) tm_env_scheme \<Rightarrow> 'v TaskDefinition list \<Rightarrow> (string \<rightharpoonup> nat) \<Rightarrow> TaskInstance list \<Rightarrow> bool" where
  "latest_inv env seen latestIndex latestTasks =
     ((\<forall>k i. latestIndex k = Some i \<longrightarrow> i < length latestTasks \<and> ti_id (latestTasks ! i) = k) \<and>
      (\<forall>i < length latestTasks. latestIndex (ti_id (latestTasks ! i)) = Some i) \<and>
      (\<forall>d \<in> set seen. latestIndex (td_id d) \<noteq> None) \<and>
      (\<forall>i < length latestTasks.
         (\<exists>d \<in> set seen. latestTasks ! i = getTaskInstance env d) \<and>
         (\<forall>d \<in> set seen. td_id d = ti_id (latestTasks ! i) \<longrightarrow>
            versionStringFromTaskDef env d \<le> ti_version (latestTasks ! i))))"

text \<open>
  Concrete inputs: a catalog whose versions are their strings, a cache root with nothing
  below it, and collaborators that succeed (the extraction writes one file).
\<close>

definition ex_catalog :: "string TaskDefinition list" where
  "ex_catalog =
     [\<lparr>td_id = ''A'', td_name = ''a'', td_version = ''1.0''\<rparr>,
      \<lparr>td_id = ''A'', td_name = ''a'', td_version = ''2.0''\<rparr>,
      \<lparr>td_id = ''B'', td_name = ''b'', td_version = ''1.0''\<rparr>]"

text \<open>A catalog whose only task has an id that every object inherits.\<close>

definition ex_catalog_inherited :: "string TaskDefinition list" where
  "ex_catalog_inherited = [\<lparr>td_id = ''constructor'', td_name = ''c'', td_version = ''1.0''\<rparr>]"

definition ex_env :: "string tm_env" where
  "ex_env =
     \<lparr>taskFolder = [''work'', ''tasks''],
      versionStringFromTaskDef = td_version,
      getTasks = \<lparr>gt_err = None, gt_tasks = Some ex_catalog\<rparr>,
      download = (\<lambda>t. \<lparr>dl_err = None, dl_wrote = True\<rparr>),
      extractFile = (\<lambda>t. \<lparr>ex_err = None, ex_files = [[''task.json'']]\<rparr>)\<rparr>"

definition ex_task :: TaskInstance where
  "ex_task = \<lparr>ti_id = ''A'', ti_name = ''a'', ti_version = ''1.0''\<rparr>"

definition ex_state :: tm_state where
  "ex_state = \<lparr>files = {}, calls = []\<rparr>"

text \<open>A cache that holds the bundle of \<open>ex_task\<close> already.\<close>

definition ex_cached :: tm_state where
  "ex_cached =
     \<lparr>files = {[''work'', ''tasks'', ''a'', ''1.0''], [''work'', ''tasks'', ''a'', ''1.0'', ''task.json'']},
      calls = []\<rparr>"

section \<open>Worker (src/agent/vsoworker.ts)\<close>

record Endpoint =
  url :: string

record SystemConnection =
  sc_url :: string
  sc_parameters :: "string \<rightharpoonup> string"

record JobAuthorization =
  serverUrl :: string

record MaskHint =
  mh_type :: string
  mh_value :: string

record JobEnvironment =
  variables :: "string \<rightharpoonup> string"
  endpoints :: "Endpoint list option"
  mask_hints :: "MaskHint list option"
  systemConnection :: "SystemConnection option"

record JobRequestMessage =
  environment :: JobEnvironment
  authorization :: JobAuthorization
  jobName :: string

record 'cfg message =
  messageType :: string
  config :: 'cfg
  data :: JobRequestMessage

text \<open>Modelled from the spec: the key \<open>cm.sysVars.system\<close>, declared in common.ts.\<close>

definition sysVars_system :: string where
  "sysVars_system = ''system''"

text \<open>Modelled from the spec: the key \<open>cm.sysVars.collectionId\<close>, declared in common.ts.\<close>

definition sysVars_collectionId :: string where
  "sysVars_collectionId = ''collectionId''"

text \<open>Modelled from the spec: the key \<open>cm.sysVars.definitionId\<close>, declared in common.ts.\<close>

definition sysVars_definitionId :: string where
  "sysVars_definitionId = ''definitionId''"

text \<open>Modelled from the spec: the key \<open>cm.sysVars.collectionUri\<close>, declared in common.ts.\<close>

definition sysVars_collectionUri :: string where
  "sysVars_collectionUri = ''collectionUri''"

text \<open>Modelled from the spec: the key \<open>cm.agentVars.workingDirectory\<close>, declared in common.ts.\<close>

definition agentVars_workingDirectory :: string where
  "agentVars_workingDirectory = ''workingDirectory''"

text \<open>Modelled from the spec: the key \<open>cm.agentVars.buildDirectory\<close>, declared in common.ts.\<close>

definition agentVars_buildDirectory :: string where
  "agentVars_buildDirectory = ''buildDirectory''"

text \<open>Modelled from the spec: the key \<open>cm.buildVars.stagingDirectory\<close>, declared in common.ts.\<close>

definition buildVars_stagingDirectory :: string where
  "buildVars_stagingDirectory = ''stagingDirectory''"

text \<open>
  What the worker takes from outside this file: \<open>cm.getWorkPath\<close>, the hex digest of
  SHA-256 over the UTF-8 bytes of a string, and Node's \<open>path.join\<close>, which is handed
  JavaScript values (\<open>None\<close> is \<open>undefined\<close>) and may throw (\<open>None\<close>).
\<close>

record 'cfg worker_env =
  getWorkPath :: "'cfg \<Rightarrow> string"
  sha256_hex :: "string \<Rightarrow> string"
  path_join :: "string option list \<Rightarrow> string option"

text \<open>\<open>!v\<close> is false for a string that is not empty, true for \<open>undefined\<close> and \<open>''\<close>.\<close>

definition truthy :: "string option \<Rightarrow> bool" where
  "truthy v = (case v of None \<Rightarrow> False | Some s \<Rightarrow> s \<noteq> [])"

text \<open>What \<open>+\<close> makes of a value that is concatenated to a string.\<close>

definition js_str :: "string option \<Rightarrow> string" where
  "js_str v = (case v of None \<Rightarrow> ''undefined'' | Some s \<Rightarrow> s)"

definition with_variables :: "JobRequestMessage \<Rightarrow> (string \<rightharpoonup> string) \<Rightarrow> JobRequestMessage" where
  "with_variables job vs = job\<lparr>environment := (environment job)\<lparr>variables := vs\<rparr>\<rparr>"

text \<open>
  \<open>setVariables\<close> changes the job in place: the job as it leaves it, and the error it
  threw, if any (an exception of \<open>path.join\<close> leaves the writes made before it).
\<close>

definition setVariables ::
  "('cfg, 'x) worker_env_scheme \<Rightarrow> 'cfg \<Rightarrow> JobRequestMessage \<Rightarrow> JobRequestMessage \<times> js_error option" where
  "setVariables env cfg job =
     (let workingFolder = getWorkPath env cfg;
          variables0 = variables (environment job);
          sys = variables0 sysVars_system;
          collId = variables0 sysVars_collectionId;
          variables1 =
            (if \<not> truthy (variables0 sysVars_collectionUri)
             then variables0(sysVars_collectionUri \<mapsto>
                    (case systemConnection (environment job) of
                       Some c \<Rightarrow> sc_url c
                     | None \<Rightarrow> serverUrl (authorization job)))
             else variables0);
          defId = variables1 sysVars_definitionId;
          hashInput0 = js_str collId @ '':'' @ js_str defId;
          hashInput =
            (case endpoints (environment job) of
               Some es \<Rightarrow> foldl (\<lambda>h endpoint. h @ '':'' @ url endpoint) hashInput0 es
             | None \<Rightarrow> hashInput0);
          hash = sha256_hex env hashInput
      in case path_join env [Some workingFolder, sys, Some hash] of
           None \<Rightarrow> (with_variables job variables1, Some TypeError)
         | Some buildDirectory \<Rightarrow>
             (let variables2 = variables1(agentVars_workingDirectory \<mapsto> workingFolder,
                                          agentVars_buildDirectory \<mapsto> buildDirectory)
              in case path_join env [Some buildDirectory, Some ''staging''] of
                   None \<Rightarrow> (with_variables job variables2, Some TypeError)
                 | Some stagingFolder \<Rightarrow>
                     (with_variables job (variables2(buildVars_stagingDirectory \<mapsto> stagingFolder)),
                      None)))"

text \<open>
  The worker as a machine on the event loop. An event is a callback that the loop runs
  to its end: the job runner's completion callback, the channel's JobAbandoned event, and
  the settling of the promise of \<open>serviceChannel.drain()\<close> or of \<open>ctx.finishJob(result)\<close>
  (both outside this file). The log holds, oldest first, what the worker did and the
  settlings it saw. The callbacks chained on such a promise run in later turns of the loop
  than its settling; they read the job's name only, which no callback writes, so they are
  taken together with the settling.
\<close>

datatype settle = Fulfilled | RejectedWith "string option"

datatype 'r w_action =
    LogInfo string
  | LogStatus string
  | LogError string
  | TraceWrite string
  | TraceCallback string
  | CallJobRunnerRun
  | CallDrain
  | CallFinishJob 'r
  | DrainSettled settle
  | FinishJobSettled settle
  | DeferredResolve

datatype 'r event =
    EngineCompleted "string option" 'r
  | JobAbandoned
  | DrainDone settle
  | FinishJobDone settle

datatype awaited = AwaitDrain | AwaitFinishJob

record 'r worker =
  registered :: bool
  finishingJob :: bool
  awaiting :: "awaited option"
  w_jobName :: string
  log :: "'r w_action list"

fun deliver :: "'r event \<Rightarrow> 'r worker \<Rightarrow> 'r worker" where
  "deliver JobAbandoned w =
     (if \<not> registered w then w
      else if \<not> finishingJob w
      then w\<lparr>finishingJob := True, awaiting := Some AwaitDrain,
             log := log w @ [LogError ''Job abandoned by the server.'', CallDrain]\<rparr>
      else w)"
| "deliver (EngineCompleted err result) w =
     (if \<not> registered w then w
      else
        (let w1 = w\<lparr>log := log w
                      @ [TraceCallback ''job.run'', LogStatus (''Job Completed: '' @ w_jobName w)]
                      @ (case err of Some m \<Rightarrow> [LogError (''Error: '' @ m)] | None \<Rightarrow> [])\<rparr>
         in if \<not> finishingJob w1
            then w1\<lparr>finishingJob := True, awaiting := Some AwaitFinishJob,
                    log := log w1 @ [CallFinishJob result]\<rparr>
            else w1))"
| "deliver (DrainDone out) w =
     (if awaiting w = Some AwaitDrain
      then w\<lparr>awaiting := None,
             log := log w
               @ [DrainSettled out, TraceWrite ''Service channel drained'', DeferredResolve]\<rparr>
      else w)"
| "deliver (FinishJobDone out) w =
     (if awaiting w = Some AwaitFinishJob
      then w\<lparr>awaiting := None,
             log := log w
               @ [FinishJobSettled out, TraceCallback ''ctx.finishJob'',
                  LogStatus (''Job Finished: '' @ w_jobName w)]
               @ (case out of
                    RejectedWith (Some m) \<Rightarrow> [LogError (''Error: '' @ m)]
                  | _ \<Rightarrow> [])
               @ [DeferredResolve]\<rparr>
      else w)"

definition deliver_all :: "'r event list \<Rightarrow> 'r worker \<Rightarrow> 'r worker" where
  "deliver_all evs w = fold deliver evs w"

text \<open>
  \<open>run\<close> up to its \<open>return\<close>: for a job message the variables are set, the handlers
  are registered and the job runner is started; any other message resolves at once.
  The rewriting of the mask hints' types and the two credential variables of the process
  touch nothing that is modelled here.
\<close>

definition prelude_log :: "JobRequestMessage \<Rightarrow> 'r w_action list" where
  "prelude_log job =
     [LogInfo ''worker::onMessage'', TraceWrite ''Creating AuthHandler'']
     @ (case systemConnection (environment job) of
          Some c \<Rightarrow> [TraceWrite ''using session token'']
        | None \<Rightarrow>
            [TraceWrite ''using altcreds'',
             LogError ''system connection token not supplied.  unsupported deployment.''])
     @ [LogStatus (''Running job: '' @ jobName job), LogInfo ''message:'',
        TraceWrite ''created JobContext'', TraceWrite ''created jobRunner'', CallJobRunnerRun]"

datatype 'r run_result = Threw js_error | Returned "'r worker"

definition run :: "('cfg, 'x) worker_env_scheme \<Rightarrow> 'cfg message \<Rightarrow> 'r run_result" where
  "run env msg =
     (if messageType msg = ''job'' then
        (case setVariables env (config msg) (data msg) of
           (job, Some e) \<Rightarrow> Threw e
         | (job, None) \<Rightarrow>
             Returned \<lparr>registered = True, finishingJob = False, awaiting = None,
                       w_jobName = jobName job, log = prelude_log job\<rparr>)
      else
        Returned \<lparr>registered = False, finishingJob = False, awaiting = None,
                  w_jobName = [], log = [LogInfo ''worker::onMessage'', DeferredResolve]\<rparr>)"

text \<open>
  The claims' words for the hash input: the collection id, the definition id and then
  every endpoint URL in listed order, each after a colon.
\<close>

definition endpoint_urls :: "JobRequestMessage \<Rightarrow> string list" where
  "endpoint_urls job = (case endpoints (environment job) of None \<Rightarrow> [] | Some es \<Rightarrow> map url es)"

definition spec_hashInput :: "JobRequestMessage \<Rightarrow> string" where
  "spec_hashInput job =
     js_str (variables (environment job) sysVars_collectionId) @ '':''
     @ js_str (variables (environment job) sysVars_definitionId)
     @ concat (map (\<lambda>u. '':'' @ u) (endpoint_urls job))"

text \<open>Reading events and the log.\<close>

fun is_trigger :: "'r event \<Rightarrow> bool" where
  "is_trigger (EngineCompleted err result) = True"
| "is_trigger JobAbandoned = True"
| "is_trigger e = False"

fun is_finalize_call :: "'r w_action \<Rightarrow> bool" where
  "is_finalize_call CallDrain = True"
| "is_finalize_call (CallFinishJob result) = True"
| "is_finalize_call a = False"

fun is_logging :: "'r w_action \<Rightarrow> bool" where
  "is_logging (LogInfo m) = True"
| "is_logging (LogStatus m) = True"
| "is_logging (LogError m) = True"
| "is_logging (TraceWrite m) = True"
| "is_logging (TraceCallback m) = True"
| "is_logging a = False"

text \<open>
  The finalize call that a trigger makes when it is the first one, and the event that
  settles the promise of that call.
\<close>

fun finalize_call_of :: "'r event \<Rightarrow> 'r w_action list" where
  "finalize_call_of JobAbandoned = [CallDrain]"
| "finalize_call_of (EngineCompleted err result) = [CallFinishJob result]"
| "finalize_call_of e = []"

fun settles_for :: "'r event \<Rightarrow> 'r event \<Rightarrow> bool" where
  "settles_for JobAbandoned (DrainDone out) = True"
| "settles_for (EngineCompleted err result) (FinishJobDone out) = True"
| "settles_for t s = False"

text \<open>
  The finalize step has completed within a stretch of the log: the drain was called and
  its promise settled, or \<open>ctx.finishJob\<close> was called and its promise settled.
\<close>

definition finalize_settled :: "'r w_action list \<Rightarrow> bool" where
  "finalize_settled l =
     ((CallDrain \<in> set l \<and> (\<exists>out. DrainSettled out \<in> set l)) \<or>
      (\<exists>result out. CallFinishJob result \<in> set l \<and> FinishJobSettled out \<in> set l))"

text \<open>
  Concrete inputs: a job with the same endpoint twice, a configuration that is its work
  path, a join that puts slashes between strings and throws on \<open>undefined\<close>, and a
  stand-in for the digest that shows its input.
\<close>

fun join_strings :: "string list \<Rightarrow> string" where
  "join_strings [] = []"
| "join_strings [x] = x"
| "join_strings (x # xs) = x @ ''/'' @ join_strings xs"

definition ex_path_join :: "string option list \<Rightarrow> string option" where
  "ex_path_join xs = map_option join_strings (those xs)"

definition ex_worker_env :: "string worker_env" where
  "ex_worker_env =
     \<lparr>getWorkPath = (\<lambda>c. c),
      sha256_hex = (\<lambda>x. ''sha256('' @ x @ '')''),
      path_join = ex_path_join\<rparr>"

definition ex_job :: JobRequestMessage where
  "ex_job =
     \<lparr>environment =
        \<lparr>variables = [sysVars_system \<mapsto> ''build'', sysVars_collectionId \<mapsto> ''c1'',
                      sysVars_definitionId \<mapsto> ''7'', ''custom'' \<mapsto> ''x''],
         endpoints = Some [\<lparr>url = ''https://e''\<rparr>, \<lparr>url = ''https://e''\<rparr>],
         mask_hints = None,
         systemConnection =
           Some \<lparr>sc_url = ''https://server/c'', sc_parameters = [''AccessToken'' \<mapsto> ''t'']\<rparr>\<rparr>,
      authorization = \<lparr>serverUrl = ''https://server''\<rparr>,
      jobName = ''J''\<rparr>"

definition ex_msg :: "string message" where
  "ex_msg = \<lparr>messageType = ''job'', config = ''/w'', data = ex_job\<rparr>"

text \<open>
  A second job that agrees with \<open>ex_job\<close> on the system, the collection id, the
  definition id and the endpoint URLs, and differs elsewhere; and \<open>ex_job\<close> with a
  collection URI that is present and empty.
\<close>

definition ex_job2 :: JobRequestMessage where
  "ex_job2 =
     \<lparr>environment =
        \<lparr>variables = [sysVars_system \<mapsto> ''build'', sysVars_collectionId \<mapsto> ''c1'',
                      sysVars_definitionId \<mapsto> ''7'', ''custom'' \<mapsto> ''y'',
                      sysVars_collectionUri \<mapsto> ''https://given''],
         endpoints = Some [\<lparr>url = ''https://e''\<rparr>, \<lparr>url = ''https://e''\<rparr>],
         mask_hints = Some [],
         systemConnection = None\<rparr>,
      authorization = \<lparr>serverUrl = ''https://other''\<rparr>,
      jobName = ''K''\<rparr>"

text \<open>\<open>ex_job\<close> without the system variable.\<close>

definition ex_job_nosys :: JobRequestMessage where
  "ex_job_nosys =
     with_variables ex_job ((variables (environment ex_job))(sysVars_system := None))"

definition ex_job_empty_uri :: JobRequestMessage where
  "ex_job_empty_uri =
     with_variables ex_job ((variables (environment ex_job))(sysVars_collectionUri \<mapsto> []))"

text \<open>The worker that \<open>run\<close> returns for \<open>ex_msg\<close>; the job runner's result is a number.\<close>

definition ex_worker :: "nat worker" where
  "ex_worker =
     \<lparr>registered = True, finishingJob = False, awaiting = None, w_jobName = ''J'',
      log = [LogInfo ''worker::onMessage'', TraceWrite ''Creating AuthHandler'',
             TraceWrite ''using session token'', LogStatus ''Running job: J'',
             LogInfo ''message:'', TraceWrite ''created JobContext'',
             TraceWrite ''created jobRunner'', CallJobRunnerRun]\<rparr>"

text \<open>Every resolve in the log comes after a finalize step that has completed.\<close>

definition resolve_guarded :: "'r w_action list \<Rightarrow> bool" where
  "resolve_guarded l = (\<forall>pre post. l = pre @ DeferredResolve # post \<longrightarrow> finalize_settled pre)"

definition resolve_inv :: "'r worker \<Rightarrow> bool" where
  "resolve_inv w =
     (resolve_guarded (log w) \<and>
      (awaiting w = Some AwaitDrain \<longrightarrow> CallDrain \<in> set (log w)) \<and>
      (awaiting w = Some AwaitFinishJob \<longrightarrow> (\<exists>result. CallFinishJob result \<in> set (log w))))"

section \<open>Properties of the task bundle cache\<close>

subsection \<open>The call log\<close>

lemma ensure_calls_append: "ensure_calls (xs @ ys) = ensure_calls xs @ ensure_calls ys"
  by (induction xs rule: ensure_calls.induct) simp_all

lemma ensureTasksExist_calls_append: "ensureTasksExist_calls (xs @ ys) = ensureTasksExist_calls xs @ ensureTasksExist_calls ys"
  by (induction xs rule: ensureTasksExist_calls.induct) simp_all

lemma download_calls_append: "download_calls (xs @ ys) = download_calls xs @ download_calls ys"
  by (induction xs rule: download_calls.induct) simp_all

lemma ensureTaskExists_begin_calls:
  "ensure_calls (calls (fst (ensureTaskExists_begin env task s))) = ensure_calls (calls s) @ [task]"
  by (simp add: ensureTaskExists_begin_def downloadTask_begin_def Let_def ensure_calls_append)

lemma begin_all_calls:
  "ensure_calls (calls (fst (begin_all env tasks s))) = ensure_calls (calls s) @ tasks"
proof (induction tasks arbitrary: s)
  case Nil
  show ?case by simp
next
  case (Cons task rest)
  obtain s1 t where b: "ensureTaskExists_begin env task s = (s1, t)"
    by (cases "ensureTaskExists_begin env task s")
  have "ensure_calls (calls s1) = ensure_calls (calls s) @ [task]"
    using ensureTaskExists_begin_calls [of env task s] b by simp
  with Cons.IH [of s1] b show ?case by (auto split: prod.splits)
qed

lemma ticket_finish_calls:
  "ensure_calls (calls (fst (ticket_finish env t s))) = ensure_calls (calls s)"
  by (cases t) (simp_all add: ticket_finish_def downloadTask_finish_def Let_def ensure_calls_append split: prod.splits option.splits)

lemma finish_all_calls:
  "ensure_calls (calls (fst (finish_all env ts s))) = ensure_calls (calls s)"
proof (induction ts arbitrary: s)
  case Nil
  show ?case by simp
next
  case (Cons t ts)
  obtain s1 p where f: "ticket_finish env t s = (s1, p)" by (cases "ticket_finish env t s")
  have "ensure_calls (calls s1) = ensure_calls (calls s)"
    using ticket_finish_calls [of env t s] f by simp
  with Cons.IH [of s1] f show ?case by (auto split: prod.splits)
qed

lemma ensureTasksExist_calls_every_task:
  "ensure_calls (calls (fst (ensureTasksExist env tasks s))) = ensure_calls (calls s) @ tasks"
proof -
  let ?s0 = "s\<lparr>calls := calls s @ [EnsureTasksExist tasks]\<rparr>"
  obtain s1 ts where b: "begin_all env tasks ?s0 = (s1, ts)" by (cases "begin_all env tasks ?s0")
  obtain s2 ps where f: "finish_all env ts s1 = (s2, ps)" by (cases "finish_all env ts s1")
  have "ensure_calls (calls s2) = ensure_calls (calls s1)"
    using finish_all_calls [of env ts s1] f by simp
  also have "\<dots> = ensure_calls (calls ?s0) @ tasks"
    using begin_all_calls [of env tasks ?s0] b by simp
  finally show ?thesis using b f by (simp add: ensureTasksExist_def ensure_calls_append)
qed

lemma begin_all_batches:
  "ensureTasksExist_calls (calls (fst (begin_all env tasks s))) = ensureTasksExist_calls (calls s)"
proof (induction tasks arbitrary: s)
  case Nil
  show ?case by simp
next
  case (Cons task rest)
  obtain s1 t where b: "ensureTaskExists_begin env task s = (s1, t)"
    by (cases "ensureTaskExists_begin env task s")
  then have "ensureTasksExist_calls (calls s1) = ensureTasksExist_calls (calls s)"
    by (auto simp: ensureTaskExists_begin_def downloadTask_begin_def Let_def ensureTasksExist_calls_append split: if_splits)
  with Cons.IH [of s1] b show ?case by (auto split: prod.splits)
qed

lemma ticket_finish_batches:
  "ensureTasksExist_calls (calls (fst (ticket_finish env t s))) = ensureTasksExist_calls (calls s)"
  by (cases t) (simp_all add: ticket_finish_def downloadTask_finish_def Let_def ensureTasksExist_calls_append split: prod.splits option.splits)

lemma finish_all_batches:
  "ensureTasksExist_calls (calls (fst (finish_all env ts s))) = ensureTasksExist_calls (calls s)"
proof (induction ts arbitrary: s)
  case Nil
  show ?case by simp
next
  case (Cons t ts)
  obtain s1 p where f: "ticket_finish env t s = (s1, p)" by (cases "ticket_finish env t s")
  have "ensureTasksExist_calls (calls s1) = ensureTasksExist_calls (calls s)"
    using ticket_finish_batches [of env t s] f by simp
  with Cons.IH [of s1] f show ?case by (auto split: prod.splits)
qed

lemma ensureTasksExist_batches:
  "ensureTasksExist_calls (calls (fst (ensureTasksExist env tasks s))) = ensureTasksExist_calls (calls s) @ [tasks]"
proof -
  let ?s0 = "s\<lparr>calls := calls s @ [EnsureTasksExist tasks]\<rparr>"
  obtain s1 ts where b: "begin_all env tasks ?s0 = (s1, ts)" by (cases "begin_all env tasks ?s0")
  obtain s2 ps where f: "finish_all env ts s1 = (s2, ps)" by (cases "finish_all env ts s1")
  have "ensureTasksExist_calls (calls s2) = ensureTasksExist_calls (calls s1)"
    using finish_all_batches [of env ts s1] f by simp
  also have "\<dots> = ensureTasksExist_calls (calls ?s0)"
    using begin_all_batches [of env tasks ?s0] b by simp
  finally show ?thesis using b f by (simp add: ensureTasksExist_def ensureTasksExist_calls_append)
qed

lemmas tm_defs = ensureTasksExist_def ensureTaskExists_begin_def hasTask_def existsSync_def
  getTaskPath_def downloadTask_begin_def mkdir_p_def zipPath_def ticket_finish_def
  downloadTask_finish_def downloadTask_def rm_rf_def Q_all_def resolve_def reject_def
  ensureLatestExist_def getTaskInstance_def js_in_def object_prototype_names_def

subsection \<open>An existing bundle\<close>

lemma ensureTaskExists_present:
  "existsSync (getTaskPath env task) (files s) \<Longrightarrow>
     ensureTaskExists env task s = (s\<lparr>calls := calls s @ [EnsureTaskExists task]\<rparr>, Resolved)"
  by (simp add: ensureTaskExists_def ensureTaskExists_begin_def hasTask_def ticket_finish_def)

text \<open>
  Claim C9. When the bundle directory of a task exists, \<open>ensureTaskExists\<close> returns a
  resolved promise, leaves the file system as it was and makes no call but its own: no
  download, no extraction. A second call on the state the first one left does the same.
\<close>

theorem ensureTaskExists_present_is_noop:
  assumes "existsSync (getTaskPath env task) (files s)"
  shows "(case ensureTaskExists env task s of
            (s1, p1) \<Rightarrow>
              p1 = Resolved \<and> files s1 = files s \<and> calls s1 = calls s @ [EnsureTaskExists task] \<and>
              (case ensureTaskExists env task s1 of
                 (s2, p2) \<Rightarrow>
                   p2 = Resolved \<and> files s2 = files s \<and>
                   calls s2 = calls s @ [EnsureTaskExists task, EnsureTaskExists task]))"
  using assms by (simp add: ensureTaskExists_present)

theorem ensureTaskExists_present_is_noop_witness:
  "existsSync (getTaskPath ex_env ex_task) (files ex_cached) \<and>
   snd (ensureTaskExists ex_env ex_task ex_cached) = Resolved \<and>
   files (fst (ensureTaskExists ex_env ex_task ex_cached)) = files ex_cached \<and>
   download_calls (calls (fst (ensureTaskExists ex_env ex_task ex_cached))) = []"
proof -
  have h: "existsSync (getTaskPath ex_env ex_task) (files ex_cached)"
    by (simp add: existsSync_def getTaskPath_def ex_env_def ex_task_def ex_cached_def)
  have c: "calls ex_cached = []" by (simp add: ex_cached_def)
  from ensureTaskExists_present_is_noop [OF h] h c show ?thesis by (auto split: prod.splits)
qed

subsection \<open>Duplicates in a batch\<close>

text \<open>
  Claim C3. The source computes \<open>uniqueTasks\<close> and then maps over \<open>tasks\<close>: the batch
  that holds \<open>ex_task\<close> twice calls \<open>ensureTaskExists\<close> twice, and two tasks with one
  (id, version) pair and different names are downloaded twice.
\<close>

theorem ensureTasksExist_repeats_duplicate_pair:
  "ensure_calls (calls (fst (ensureTasksExist ex_env [ex_task, ex_task] ex_state)))
     = [ex_task, ex_task] \<and>
   uniqueTasks_loop [ex_task, ex_task] Map.empty [] = [ex_task] \<and>
   download_calls
     (calls (fst (ensureTasksExist ex_env [ex_task, ex_task\<lparr>ti_name := ''other''\<rparr>] ex_state)))
     = [(''A'', ''1.0''), (''A'', ''1.0'')]"
  by (simp add: tm_defs ex_env_def ex_task_def ex_state_def Let_def)

subsection \<open>A failed download\<close>

text \<open>When the extraction fails, the directory, everything below it and the archive are
  gone and the promise is rejected.\<close>

lemma downloadTask_rollback:
  assumes "ex_err (extractFile env task) = Some err"
  shows "(case downloadTask env task s of
            (s1, p) \<Rightarrow>
              is_rejected p \<and>
              \<not> existsSync (getTaskPath env task) (files s1) \<and>
              \<not> existsSync (zipPath (getTaskPath env task)) (files s1) \<and>
              (\<forall>q \<in> files s1. \<not> prefix (getTaskPath env task) q))"
  using assms
  by (auto simp: downloadTask_def downloadTask_finish_def downloadTask_begin_def Let_def rm_rf_def
      existsSync_def reject_def resolve_def split: option.splits)

text \<open>
  Claim C4. The download callback rejects and goes on: when the download API reports an
  error and the extraction then reports none, the promise is rejected and the bundle
  directory, with what was extracted into it, stays on disk; only the archive is removed.
\<close>

theorem downloadTask_failed_download_leaves_bundle:
  "(case downloadTask
           (ex_env\<lparr>download := (\<lambda>t. \<lparr>dl_err = Some ''socket hang up'', dl_wrote = True\<rparr>)\<rparr>)
           ex_task ex_state of
      (s, p) \<Rightarrow>
        p = Rejected ''socket hang up'' \<and>
        existsSync [''work'', ''tasks'', ''a'', ''1.0''] (files s) \<and>
        existsSync [''work'', ''tasks'', ''a'', ''1.0'', ''task.json''] (files s) \<and>
        \<not> existsSync [''work'', ''tasks'', ''a'', ''1.0.zip''] (files s))"
  by (simp add: tm_defs ex_env_def ex_task_def ex_state_def Let_def)

subsection \<open>The latest version of every task\<close>

lemma latest_loop_inv:
  assumes "latest_inv env seen ix lt"
    and "\<forall>d \<in> set rest. td_id d \<notin> set object_prototype_names"
  shows "\<exists>res ix'. latest_loop env rest ix lt = Some res \<and> latest_inv env (seen @ rest) ix' res"
  using assms
proof (induction rest arbitrary: ix lt seen)
  case Nil
  then show ?case by auto
next
  case (Cons task rest)
  have own: "js_in (td_id task) ix = (ix (td_id task) \<noteq> None)"
    using Cons.prems(2) by (simp add: js_in_def)
  have rest_ok: "\<forall>d \<in> set rest. td_id d \<notin> set object_prototype_names"
    using Cons.prems(2) by simp
  have p1: "\<forall>k i. ix k = Some i \<longrightarrow> i < length lt \<and> ti_id (lt ! i) = k"
    and p2: "\<forall>i < length lt. ix (ti_id (lt ! i)) = Some i"
    and p3: "\<forall>d \<in> set seen. ix (td_id d) \<noteq> None"
    and p4: "\<forall>i < length lt. (\<exists>d \<in> set seen. lt ! i = getTaskInstance env d) \<and>
           (\<forall>d \<in> set seen. td_id d = ti_id (lt ! i) \<longrightarrow> versionStringFromTaskDef env d \<le> ti_version (lt ! i))"
    using Cons.prems(1) unfolding latest_inv_def by blast+
  let ?k = "td_id task"
  let ?g = "getTaskInstance env task"
  let ?v = "versionStringFromTaskDef env task"
  have gid: "ti_id ?g = ?k" and gv: "ti_version ?g = ?v" by (simp_all add: getTaskInstance_def)
  show ?case
  proof (cases "ix ?k")
    case None
    let ?ix = "ix(?k \<mapsto> length lt)"
    let ?lt = "lt @ [?g]"
    have fresh: "\<forall>i < length lt. ti_id (lt ! i) \<noteq> ?k"
      using p2 None by auto
    have a1: "\<forall>k i. ?ix k = Some i \<longrightarrow> i < length ?lt \<and> ti_id (?lt ! i) = k"
      using p1 gid by (auto simp: nth_append less_Suc_eq)
    have a2: "\<forall>i < length ?lt. ?ix (ti_id (?lt ! i)) = Some i"
      using p2 fresh gid by (auto simp: nth_append less_Suc_eq)
    have a3: "\<forall>d \<in> set (seen @ [task]). ?ix (td_id d) \<noteq> None"
      using p3 by auto
    have nok: "\<forall>d \<in> set seen. td_id d \<noteq> ?k"
      using p3 None by auto
    have a4: "\<forall>i < length ?lt. (\<exists>d \<in> set (seen @ [task]). ?lt ! i = getTaskInstance env d) \<and>
           (\<forall>d \<in> set (seen @ [task]). td_id d = ti_id (?lt ! i) \<longrightarrow>
              versionStringFromTaskDef env d \<le> ti_version (?lt ! i))"
    proof (intro allI impI)
      fix i assume "i < length ?lt"
      then consider "i < length lt" | "i = length lt" by (auto simp: less_Suc_eq)
      then show "(\<exists>d \<in> set (seen @ [task]). ?lt ! i = getTaskInstance env d) \<and>
           (\<forall>d \<in> set (seen @ [task]). td_id d = ti_id (?lt ! i) \<longrightarrow>
              versionStringFromTaskDef env d \<le> ti_version (?lt ! i))"
      proof cases
        case 1
        then show ?thesis using p4 fresh by (auto simp: nth_append)
      next
        case 2
        then show ?thesis using nok gid gv by (auto simp: nth_append)
      qed
    qed
    have "latest_inv env (seen @ [task]) ?ix ?lt"
      unfolding latest_inv_def using a1 a2 a3 a4 by blast
    moreover have "latest_loop env (task # rest) ix lt = latest_loop env rest ?ix ?lt"
      using None own by simp
    moreover have "(seen @ [task]) @ rest = seen @ task # rest" by simp
    ultimately show ?thesis using Cons.IH [of "seen @ [task]" ?ix ?lt] rest_ok by metis
  next
    case (Some i)
    then have il: "i < length lt" and iid: "ti_id (lt ! i) = ?k"
      using p1 by auto
    have other: "\<forall>j < length lt. j \<noteq> i \<longrightarrow> ti_id (lt ! j) \<noteq> ?k"
      using p2 Some by auto
    have a3: "\<forall>d \<in> set (seen @ [task]). ix (td_id d) \<noteq> None"
      using p3 Some by auto
    show ?thesis
    proof (cases "?v > ti_version (lt ! i)")
      case True
      let ?lt = "lt[i := ?g]"
      have a1: "\<forall>k j. ix k = Some j \<longrightarrow> j < length ?lt \<and> ti_id (?lt ! j) = k"
        using p1 gid iid il by (auto simp: nth_list_update)
      have a2: "\<forall>j < length ?lt. ix (ti_id (?lt ! j)) = Some j"
        using p2 gid Some il by (auto simp: nth_list_update)
      have a4: "\<forall>j < length ?lt. (\<exists>d \<in> set (seen @ [task]). ?lt ! j = getTaskInstance env d) \<and>
           (\<forall>d \<in> set (seen @ [task]). td_id d = ti_id (?lt ! j) \<longrightarrow>
              versionStringFromTaskDef env d \<le> ti_version (?lt ! j))"
      proof (intro allI impI)
        fix j assume jl: "j < length ?lt"
        show "(\<exists>d \<in> set (seen @ [task]). ?lt ! j = getTaskInstance env d) \<and>
           (\<forall>d \<in> set (seen @ [task]). td_id d = ti_id (?lt ! j) \<longrightarrow>
              versionStringFromTaskDef env d \<le> ti_version (?lt ! j))"
        proof (cases "j = i")
          case True
          have "\<forall>d \<in> set seen. td_id d = ?k \<longrightarrow> versionStringFromTaskDef env d \<le> ?v"
          proof (intro ballI impI)
            fix d assume "d \<in> set seen" "td_id d = ?k"
            then have "versionStringFromTaskDef env d \<le> ti_version (lt ! i)"
              using p4 il iid by auto
            with \<open>?v > ti_version (lt ! i)\<close> show "versionStringFromTaskDef env d \<le> ?v" by simp
          qed
          then show ?thesis using True il gid gv by auto
        next
          case False
          then show ?thesis using p4 other jl by (auto simp: nth_list_update)
        qed
      qed
      have "latest_inv env (seen @ [task]) ix ?lt"
        unfolding latest_inv_def using a1 a2 a3 a4 by blast
      moreover have "latest_loop env (task # rest) ix lt = latest_loop env rest ix ?lt"
        using Some il True own by simp
      moreover have "(seen @ [task]) @ rest = seen @ task # rest" by simp
      ultimately show ?thesis using Cons.IH [of "seen @ [task]" ix ?lt] rest_ok by metis
    next
      case False
      have a4: "\<forall>j < length lt. (\<exists>d \<in> set (seen @ [task]). lt ! j = getTaskInstance env d) \<and>
           (\<forall>d \<in> set (seen @ [task]). td_id d = ti_id (lt ! j) \<longrightarrow>
              versionStringFromTaskDef env d \<le> ti_version (lt ! j))"
      proof (intro allI impI)
        fix j assume jl: "j < length lt"
        show "(\<exists>d \<in> set (seen @ [task]). lt ! j = getTaskInstance env d) \<and>
           (\<forall>d \<in> set (seen @ [task]). td_id d = ti_id (lt ! j) \<longrightarrow>
              versionStringFromTaskDef env d \<le> ti_version (lt ! j))"
        proof (cases "j = i")
          case True
          then show ?thesis using p4 il False by auto
        next
          case False
          then show ?thesis using p4 other jl by auto
        qed
      qed
      have "latest_inv env (seen @ [task]) ix lt"
        unfolding latest_inv_def using p1 p2 a3 a4 by blast
      moreover have "latest_loop env (task # rest) ix lt = latest_loop env rest ix lt"
        using Some il False own by simp
      moreover have "(seen @ [task]) @ rest = seen @ task # rest" by simp
      ultimately show ?thesis using Cons.IH [of "seen @ [task]" ix lt] rest_ok by metis
    qed
  qed
qed

lemma latest_inv_empty: "latest_inv env [] Map.empty []"
  by (simp add: latest_inv_def)

lemma latest_inv_distinct:
  assumes "latest_inv env seen ix lt"
  shows "distinct (map ti_id lt)"
proof -
  have "\<forall>i < length lt. \<forall>j < length lt. ti_id (lt ! i) = ti_id (lt ! j) \<longrightarrow> i = j"
    using assms unfolding latest_inv_def by (metis option.inject)
  then show ?thesis by (auto simp: distinct_conv_nth)
qed

lemma latest_inv_ids:
  assumes "latest_inv env seen ix lt"
  shows "ti_id ` set lt = td_id ` set seen"
proof
  show "ti_id ` set lt \<subseteq> td_id ` set seen"
  proof
    fix k assume "k \<in> ti_id ` set lt"
    then obtain i where "i < length lt" "k = ti_id (lt ! i)" by (auto simp: in_set_conv_nth)
    moreover from this assms obtain d where "d \<in> set seen" "lt ! i = getTaskInstance env d"
      unfolding latest_inv_def by blast
    ultimately show "k \<in> td_id ` set seen" by (auto simp: getTaskInstance_def)
  qed
  show "td_id ` set seen \<subseteq> ti_id ` set lt"
  proof
    fix k assume "k \<in> td_id ` set seen"
    then obtain d where "d \<in> set seen" "k = td_id d" by auto
    with assms obtain i where "ix k = Some i" unfolding latest_inv_def by auto
    with assms have "i < length lt" "ti_id (lt ! i) = k" unfolding latest_inv_def by auto
    then show "k \<in> ti_id ` set lt" by (metis imageI nth_mem)
  qed
qed

lemma latest_inv_max:
  assumes "latest_inv env seen ix lt" and "t \<in> set lt"
  shows "(\<exists>d \<in> set seen. t = getTaskInstance env d) \<and>
         (\<forall>d \<in> set seen. td_id d = ti_id t \<longrightarrow> versionStringFromTaskDef env d \<le> ti_version t)"
proof -
  from assms(2) obtain i where "i < length lt" "t = lt ! i" by (auto simp: in_set_conv_nth)
  with assms(1) show ?thesis unfolding latest_inv_def by blast
qed

text \<open>
  Claim C5, amended. For a catalog that \<open>getTasks\<close> hands over and in which no task id is
  a name that \<open>Object.prototype\<close> defines, the loop ends without an error
  with a list \<open>latest\<close> that has one entry for every task id of the catalog and no id
  twice; every entry is an entry of the catalog, and its version string is greatest
  (as strings compare) among the catalog's entries with its id. \<open>ensureTasksExist\<close> is
  called once, with \<open>latest\<close>, and \<open>ensureTaskExists\<close> for the entries of \<open>latest\<close> in
  order.
\<close>

theorem ensureLatestExist_latest_per_id:
  assumes "gt_tasks (getTasks env) = Some tasks"
    and "\<forall>d \<in> set tasks. td_id d \<notin> set object_prototype_names"
  shows "\<exists>latest.
           latest_loop env tasks Map.empty [] = Some latest \<and>
           snd (snd (ensureLatestExist env s)) = None \<and>
           ensureTasksExist_calls (calls (fst (ensureLatestExist env s)))
             = ensureTasksExist_calls (calls s) @ [latest] \<and>
           ensure_calls (calls (fst (ensureLatestExist env s))) = ensure_calls (calls s) @ latest \<and>
           distinct (map ti_id latest) \<and>
           ti_id ` set latest = td_id ` set tasks \<and>
           (\<forall>t \<in> set latest.
              (\<exists>d \<in> set tasks. t = getTaskInstance env d) \<and>
              (\<forall>d \<in> set tasks. td_id d = ti_id t \<longrightarrow>
                 versionStringFromTaskDef env d \<le> ti_version t))"
proof -
  from latest_loop_inv [OF latest_inv_empty assms(2), of env]
  obtain latest ix where l: "latest_loop env tasks Map.empty [] = Some latest"
    and inv: "latest_inv env tasks ix latest" by auto
  let ?s0 = "s\<lparr>calls := calls s @ [GetTasks]\<rparr>"
  obtain s1 q where e: "ensureTasksExist env latest ?s0 = (s1, q)"
    by (cases "ensureTasksExist env latest ?s0")
  have r: "fst (ensureLatestExist env s) = s1" "snd (snd (ensureLatestExist env s)) = None"
    using assms(1) l e by (simp_all add: ensureLatestExist_def Let_def)
  have c1: "ensureTasksExist_calls (calls s1) = ensureTasksExist_calls (calls s) @ [latest]"
    using ensureTasksExist_batches [of env latest ?s0] e by (simp add: ensureTasksExist_calls_append)
  have c2: "ensure_calls (calls s1) = ensure_calls (calls s) @ latest"
    using ensureTasksExist_calls_every_task [of env latest ?s0] e by (simp add: ensure_calls_append)
  show ?thesis
    using l r c1 c2 latest_inv_distinct [OF inv] latest_inv_ids [OF inv] latest_inv_max [OF inv]
    by auto
qed

theorem ensureLatestExist_latest_per_id_witness:
  "gt_tasks (getTasks ex_env) = Some ex_catalog \<and>
   td_id ` set ex_catalog \<inter> set object_prototype_names = {} \<and>
   ensure_calls (calls (fst (ensureLatestExist ex_env ex_state)))
     = [\<lparr>ti_id = ''A'', ti_name = ''a'', ti_version = ''2.0''\<rparr>,
        \<lparr>ti_id = ''B'', ti_name = ''b'', ti_version = ''1.0''\<rparr>]"
proof -
  have g: "gt_tasks (getTasks ex_env) = Some ex_catalog" by (simp add: ex_env_def)
  have n: "\<forall>d \<in> set ex_catalog. td_id d \<notin> set object_prototype_names"
    by (simp add: ex_catalog_def object_prototype_names_def)
  have "latest_loop ex_env ex_catalog Map.empty []
          = Some [\<lparr>ti_id = ''A'', ti_name = ''a'', ti_version = ''2.0''\<rparr>,
                  \<lparr>ti_id = ''B'', ti_name = ''b'', ti_version = ''1.0''\<rparr>]"
    by (simp add: ex_catalog_def ex_env_def getTaskInstance_def js_in_def object_prototype_names_def)
  with ensureLatestExist_latest_per_id [OF g n, of ex_state] g n show ?thesis
    by (auto simp: ex_state_def)
qed

text \<open>
  The claim as it was stated fails for a catalog with the task id \<open>constructor\<close>:
  \<open>task.id in latestIndex\<close> is true for the empty index, the else-if reads \<open>.version\<close>
  of \<open>undefined\<close> and throws, nothing is ensured and the promise stays pending.
\<close>

theorem ensureLatestExist_inherited_id_throws:
  "latest_loop ex_env ex_catalog_inherited Map.empty [] = None \<and>
   snd (snd (ensureLatestExist
     (ex_env\<lparr>getTasks := \<lparr>gt_err = None, gt_tasks = Some ex_catalog_inherited\<rparr>\<rparr>) ex_state))
     = Some TypeError \<and>
   fst (snd (ensureLatestExist
     (ex_env\<lparr>getTasks := \<lparr>gt_err = None, gt_tasks = Some ex_catalog_inherited\<rparr>\<rparr>) ex_state))
     = Pending \<and>
   calls (fst (ensureLatestExist
     (ex_env\<lparr>getTasks := \<lparr>gt_err = None, gt_tasks = Some ex_catalog_inherited\<rparr>\<rparr>) ex_state))
     = [GetTasks]"
  by (simp add: tm_defs ex_env_def ex_catalog_inherited_def ex_state_def Let_def)

subsection \<open>A failed listing\<close>

text \<open>
  Claim C8. The callback of \<open>getTasks\<close> rejects and goes on: when the listing reports an
  error together with a task list, the promise is rejected with that error, and the
  catalog is still reduced, \<open>ensureTaskExists\<close> still called and the bundles still
  downloaded. When it reports an error and no list, the callback goes on to read the
  length of \<open>null\<close> and throws.
\<close>

theorem ensureLatestExist_listing_error_continues:
  "(case ensureLatestExist
           (ex_env\<lparr>getTasks := \<lparr>gt_err = Some ''listing failed'', gt_tasks = Some ex_catalog\<rparr>\<rparr>)
           ex_state of
      (s, p, thrown) \<Rightarrow>
        p = Rejected ''listing failed'' \<and> thrown = None \<and>
        ensure_calls (calls s) =
          [\<lparr>ti_id = ''A'', ti_name = ''a'', ti_version = ''2.0''\<rparr>,
           \<lparr>ti_id = ''B'', ti_name = ''b'', ti_version = ''1.0''\<rparr>] \<and>
        download_calls (calls s) = [(''A'', ''2.0''), (''B'', ''1.0'')]) \<and>
   (case ensureLatestExist
           (ex_env\<lparr>getTasks := \<lparr>gt_err = Some ''listing failed'', gt_tasks = None\<rparr>\<rparr>)
           ex_state of
      (s, p, thrown) \<Rightarrow>
        p = Rejected ''listing failed'' \<and> thrown = Some TypeError \<and> calls s = [GetTasks])"
  by (simp add: tm_defs ex_env_def ex_catalog_def ex_state_def Let_def)

section \<open>Properties of the worker\<close>

subsection \<open>The variables that \<open>setVariables\<close> writes\<close>

lemmas var_names = sysVars_system_def sysVars_collectionId_def sysVars_definitionId_def
  sysVars_collectionUri_def agentVars_workingDirectory_def agentVars_buildDirectory_def
  buildVars_stagingDirectory_def

lemma foldl_urls:
  "foldl (\<lambda>h endpoint. h @ c # url endpoint) h0 es = h0 @ concat (map ((#) c \<circ> url) es)"
  by (induction es arbitrary: h0) simp_all

lemma hashInput_spec:
  "(case endpoints (environment job) of
      Some es \<Rightarrow> foldl (\<lambda>h endpoint. h @ '':'' @ url endpoint)
                  (js_str (variables (environment job) sysVars_collectionId) @ '':'' @
                   js_str (variables (environment job) sysVars_definitionId)) es
    | None \<Rightarrow> js_str (variables (environment job) sysVars_collectionId) @ '':'' @
                   js_str (variables (environment job) sysVars_definitionId))
   = spec_hashInput job"
  by (simp add: spec_hashInput_def endpoint_urls_def foldl_urls split: option.splits)

lemma setVariables_eq:
  "setVariables env cfg job =
     (let variables1 =
            (if \<not> truthy (variables (environment job) sysVars_collectionUri)
             then (variables (environment job))(sysVars_collectionUri \<mapsto>
                    (case systemConnection (environment job) of
                       Some c \<Rightarrow> sc_url c
                     | None \<Rightarrow> serverUrl (authorization job)))
             else variables (environment job))
      in case path_join env [Some (getWorkPath env cfg), variables (environment job) sysVars_system,
                             Some (sha256_hex env (spec_hashInput job))] of
           None \<Rightarrow> (with_variables job variables1, Some TypeError)
         | Some buildDirectory \<Rightarrow>
             (let variables2 = variables1(agentVars_workingDirectory \<mapsto> getWorkPath env cfg,
                                          agentVars_buildDirectory \<mapsto> buildDirectory)
              in case path_join env [Some buildDirectory, Some ''staging''] of
                   None \<Rightarrow> (with_variables job variables2, Some TypeError)
                 | Some stagingFolder \<Rightarrow>
                     (with_variables job (variables2(buildVars_stagingDirectory \<mapsto> stagingFolder)),
                      None)))"
proof -
  have d: "(if \<not> truthy (variables (environment job) sysVars_collectionUri)
             then (variables (environment job))(sysVars_collectionUri \<mapsto>
                    (case systemConnection (environment job) of
                       Some c \<Rightarrow> sc_url c
                     | None \<Rightarrow> serverUrl (authorization job)))
             else variables (environment job)) sysVars_definitionId
           = variables (environment job) sysVars_definitionId"
    by (simp add: var_names)
  show ?thesis
    unfolding setVariables_def Let_def d hashInput_spec ..
qed

text \<open>
  Claim C6, amended. For every job for which \<open>path.join\<close> returns for the work path,
  the system variable and the digest, \<open>setVariables\<close> stores what it returned under the
  build directory's key. The
  digest is taken of the collection id, a colon, the definition id and then a colon and
  the URL for every endpoint in listed order, with nothing removed: a URL that is listed
  twice is hashed twice.
\<close>

theorem setVariables_buildDirectory:
  assumes "path_join env [Some (getWorkPath env cfg), variables (environment job) sysVars_system,
                          Some (sha256_hex env (spec_hashInput job))] = Some buildDirectory"
  shows "variables (environment (fst (setVariables env cfg job))) agentVars_buildDirectory
           = Some buildDirectory"
  using assms
  by (simp add: setVariables_eq with_variables_def Let_def var_names split: option.splits)

theorem setVariables_buildDirectory_witness:
  "spec_hashInput ex_job = ''c1:7:https://e:https://e'' \<and>
   variables (environment (fst (setVariables ex_worker_env ''/w'' ex_job))) agentVars_buildDirectory
     = Some ''/w/build/sha256(c1:7:https://e:https://e)''"
proof -
  have h: "spec_hashInput ex_job = ''c1:7:https://e:https://e''"
    by (simp add: spec_hashInput_def endpoint_urls_def ex_job_def js_str_def var_names)
  have "path_join ex_worker_env [Some (getWorkPath ex_worker_env ''/w''),
           variables (environment ex_job) sysVars_system,
           Some (sha256_hex ex_worker_env (spec_hashInput ex_job))]
         = Some ''/w/build/sha256(c1:7:https://e:https://e)''"
    unfolding h by (simp add: ex_worker_env_def ex_path_join_def ex_job_def var_names)
  from setVariables_buildDirectory [OF this] h show ?thesis by simp
qed

text \<open>
  The claim as it was stated, for every job, fails for a job without the system variable:
  \<open>path.join\<close> is handed \<open>undefined\<close> and throws, \<open>setVariables\<close> throws with it, and
  no build directory is written.
\<close>

theorem setVariables_throws_without_system:
  "variables (environment ex_job_nosys) sysVars_system = None \<and>
   variables (environment ex_job_nosys) agentVars_buildDirectory = None \<and>
   snd (setVariables ex_worker_env ''/w'' ex_job_nosys) = Some TypeError \<and>
   variables (environment (fst (setVariables ex_worker_env ''/w'' ex_job_nosys)))
     agentVars_buildDirectory = None"
  by (simp add: ex_job_nosys_def ex_job_def ex_worker_env_def ex_path_join_def
      setVariables_eq spec_hashInput_def endpoint_urls_def js_str_def truthy_def with_variables_def
      Let_def var_names)

text \<open>
  Claim C7. Two jobs that agree on the system variable, the collection id, the
  definition id and the sequence of endpoint URLs, under configurations with the same work
  path, fare alike in \<open>setVariables\<close>: both throw or neither does, and when they do
  not, the build directory is written and is the same for both.
\<close>

theorem setVariables_deterministic:
  assumes "variables (environment job1) sysVars_system = variables (environment job2) sysVars_system"
    and "variables (environment job1) sysVars_collectionId = variables (environment job2) sysVars_collectionId"
    and "variables (environment job1) sysVars_definitionId = variables (environment job2) sysVars_definitionId"
    and "endpoint_urls job1 = endpoint_urls job2"
    and "getWorkPath env cfg1 = getWorkPath env cfg2"
  shows "snd (setVariables env cfg1 job1) = snd (setVariables env cfg2 job2) \<and>
         (snd (setVariables env cfg1 job1) = None \<longrightarrow>
            variables (environment (fst (setVariables env cfg1 job1))) agentVars_buildDirectory \<noteq> None \<and>
            variables (environment (fst (setVariables env cfg1 job1))) agentVars_buildDirectory
              = variables (environment (fst (setVariables env cfg2 job2))) agentVars_buildDirectory)"
proof -
  have "spec_hashInput job1 = spec_hashInput job2"
    using assms by (simp add: spec_hashInput_def)
  then show ?thesis
    using assms
    by (simp add: setVariables_eq with_variables_def Let_def var_names split: option.splits)
qed

theorem setVariables_deterministic_witness:
  "endpoint_urls ex_job = endpoint_urls ex_job2 \<and> jobName ex_job \<noteq> jobName ex_job2 \<and>
   variables (environment (fst (setVariables ex_worker_env ''/w'' ex_job))) agentVars_buildDirectory
     = Some ''/w/build/sha256(c1:7:https://e:https://e)'' \<and>
   variables (environment (fst (setVariables ex_worker_env ''/w'' ex_job2))) agentVars_buildDirectory
     = Some ''/w/build/sha256(c1:7:https://e:https://e)''"
proof -
  have a: "variables (environment ex_job) sysVars_system = variables (environment ex_job2) sysVars_system"
    "variables (environment ex_job) sysVars_collectionId = variables (environment ex_job2) sysVars_collectionId"
    "variables (environment ex_job) sysVars_definitionId = variables (environment ex_job2) sysVars_definitionId"
    "endpoint_urls ex_job = endpoint_urls ex_job2"
    "getWorkPath ex_worker_env ''/w'' = getWorkPath ex_worker_env ''/w''"
    by (simp_all add: ex_job_def ex_job2_def endpoint_urls_def var_names)
  have n: "snd (setVariables ex_worker_env ''/w'' ex_job) = None"
    and b: "variables (environment (fst (setVariables ex_worker_env ''/w'' ex_job))) agentVars_buildDirectory
     = Some ''/w/build/sha256(c1:7:https://e:https://e)''"
    by (simp_all add: ex_job_def ex_worker_env_def ex_path_join_def
      setVariables_eq spec_hashInput_def endpoint_urls_def js_str_def truthy_def with_variables_def
      Let_def var_names)
  have j: "jobName ex_job \<noteq> jobName ex_job2" by (simp add: ex_job_def ex_job2_def)
  from setVariables_deterministic [OF a] n b a(4) j show ?thesis by simp
qed

text \<open>
  Claim C10, amended. \<open>setVariables\<close> leaves every variable but the collection URI, the
  working directory, the build directory and the staging directory as it was; it leaves
  the collection URI as it was when that held a string that is not empty (it writes it
  when the variable is absent and also when it is the empty string); and it changes no
  field of the job but the variable map.
\<close>

theorem setVariables_frame:
  "(\<forall>k. k \<notin> {sysVars_collectionUri, agentVars_workingDirectory, agentVars_buildDirectory,
               buildVars_stagingDirectory} \<longrightarrow>
          variables (environment (fst (setVariables env cfg job))) k = variables (environment job) k) \<and>
   (truthy (variables (environment job) sysVars_collectionUri) \<longrightarrow>
      variables (environment (fst (setVariables env cfg job))) sysVars_collectionUri
        = variables (environment job) sysVars_collectionUri) \<and>
   fst (setVariables env cfg job)
     = with_variables job (variables (environment (fst (setVariables env cfg job))))"
  by (simp add: setVariables_eq with_variables_def Let_def var_names split: option.splits)

theorem setVariables_frame_witness:
  "truthy (variables (environment ex_job2) sysVars_collectionUri) \<and>
   ''custom'' \<notin> {sysVars_collectionUri, agentVars_workingDirectory, agentVars_buildDirectory,
               buildVars_stagingDirectory} \<and>
   variables (environment (fst (setVariables ex_worker_env ''/w'' ex_job2))) sysVars_collectionUri
     = Some ''https://given'' \<and>
   variables (environment (fst (setVariables ex_worker_env ''/w'' ex_job2))) ''custom'' = Some ''y'' \<and>
   jobName (fst (setVariables ex_worker_env ''/w'' ex_job2)) = ''K''"
proof -
  have t: "truthy (variables (environment ex_job2) sysVars_collectionUri)"
    and u: "variables (environment ex_job2) sysVars_collectionUri = Some ''https://given''"
    and c: "variables (environment ex_job2) ''custom'' = Some ''y''"
    and k: "''custom'' \<notin> {sysVars_collectionUri, agentVars_workingDirectory, agentVars_buildDirectory,
               buildVars_stagingDirectory}"
    and j: "jobName ex_job2 = ''K''"
    by (simp_all add: ex_job2_def truthy_def var_names)
  note f = setVariables_frame [of ex_worker_env "''/w''" ex_job2]
  from f have e: "fst (setVariables ex_worker_env ''/w'' ex_job2)
     = with_variables ex_job2 (variables (environment (fst (setVariables ex_worker_env ''/w'' ex_job2))))"
    by blast
  have "jobName (fst (setVariables ex_worker_env ''/w'' ex_job2)) = jobName ex_job2"
    using arg_cong [OF e, of jobName] by (simp add: with_variables_def)
  with setVariables_frame [of ex_worker_env "''/w''" ex_job2] t u c k j show ?thesis by simp
qed

text \<open>
  The claim as it was stated fails for a collection URI that is present and empty:
  \<open>!variables[cm.sysVars.collectionUri]\<close> is true for it, and the variable is overwritten.
\<close>

theorem setVariables_overwrites_empty_collectionUri:
  "variables (environment ex_job_empty_uri) sysVars_collectionUri = Some [] \<and>
   variables (environment (fst (setVariables ex_worker_env ''/w'' ex_job_empty_uri))) sysVars_collectionUri
     = Some ''https://server/c''"
  by (simp add: ex_job_empty_uri_def ex_job_def ex_worker_env_def ex_path_join_def
      setVariables_eq spec_hashInput_def endpoint_urls_def js_str_def truthy_def with_variables_def
      Let_def var_names)

subsection \<open>Finalizing once\<close>

lemma run_job_initial:
  assumes "run env msg = Returned w0" and "messageType msg = ''job''"
  shows "registered w0 \<and> \<not> finishingJob w0 \<and> awaiting w0 = None \<and>
         filter is_finalize_call (log w0) = [] \<and> count_list (log w0) DeferredResolve = 0 \<and>
         (\<forall>a \<in> set (log w0). is_logging a \<or> a = CallJobRunnerRun)"
  using assms
  by (auto simp: run_def prelude_log_def split: prod.splits option.splits)

lemma count_list_app: "count_list (xs @ ys) a = count_list xs a + count_list ys a"
  by (induction xs) simp_all

lemma late_trigger_only_logs:
  assumes "finishingJob w" and "is_trigger e"
  shows "\<exists>l. deliver e w = w\<lparr>log := log w @ l\<rparr> \<and> list_all is_logging l"
proof (cases e)
  case (EngineCompleted err result)
  show ?thesis
  proof (cases "registered w")
    case True
    then show ?thesis using assms EngineCompleted
      by (cases err) (auto simp: Let_def)
  next
    case False
    then have "deliver e w = w\<lparr>log := log w @ []\<rparr> \<and> list_all is_logging ([]::'a w_action list)"
      using EngineCompleted by simp
    then show ?thesis by blast
  qed
next
  case JobAbandoned
  then have "deliver e w = w\<lparr>log := log w @ []\<rparr> \<and> list_all is_logging ([]::'a w_action list)"
    using assms by simp
  then show ?thesis by blast
qed (use assms in auto)

lemma run_ex_msg: "run ex_worker_env ex_msg = Returned ex_worker"
  by (simp add: run_def ex_msg_def ex_job_def ex_worker_def ex_worker_env_def ex_path_join_def
      setVariables_eq spec_hashInput_def endpoint_urls_def js_str_def truthy_def with_variables_def
      prelude_log_def Let_def var_names)

lemma deliver_before_trigger:
  "awaiting w = None \<Longrightarrow> \<not> is_trigger e \<Longrightarrow> deliver e w = w"
  by (cases e) simp_all

lemma deliver_all_before_trigger:
  "awaiting w = None \<Longrightarrow> \<forall>e \<in> set evs. \<not> is_trigger e \<Longrightarrow> deliver_all evs w = w"
  unfolding deliver_all_def
  by (induction evs) (simp_all add: deliver_before_trigger)

lemma deliver_all_append: "deliver_all (xs @ ys) w = deliver_all ys (deliver_all xs w)"
  by (simp add: deliver_all_def)

lemma deliver_all_Cons: "deliver_all (e # evs) w = deliver_all evs (deliver e w)"
  by (simp add: deliver_all_def)

lemma deliver_first_trigger:
  assumes "registered w" and "\<not> finishingJob w" and "awaiting w = None" and "is_trigger t"
  shows "registered (deliver t w) \<and> finishingJob (deliver t w) \<and>
         (\<exists>a. awaiting (deliver t w) = Some a \<and>
              (\<forall>s. settles_for t s = (case a of AwaitDrain \<Rightarrow> (\<exists>out. s = DrainDone out)
                                       | AwaitFinishJob \<Rightarrow> (\<exists>out. s = FinishJobDone out)))) \<and>
         count_list (log (deliver t w)) DeferredResolve = count_list (log w) DeferredResolve \<and>
         filter is_finalize_call (log (deliver t w))
           = filter is_finalize_call (log w) @ finalize_call_of t"
proof (cases t)
  case (EngineCompleted err result)
  have "\<forall>s. settles_for (EngineCompleted err result) s = (\<exists>out. s = FinishJobDone out)"
  proof
    fix s show "settles_for (EngineCompleted err result) s = (\<exists>out. s = FinishJobDone out)"
      by (cases s) simp_all
  qed
  then show ?thesis using assms EngineCompleted
    by (cases err) (simp_all add: Let_def count_list_app)
next
  case JobAbandoned
  have "\<forall>s. settles_for (JobAbandoned :: 'a event) s = (\<exists>out. s = DrainDone out)"
  proof
    fix s :: "'a event" show "settles_for JobAbandoned s = (\<exists>out. s = DrainDone out)"
      by (cases s) simp_all
  qed
  then show ?thesis using assms JobAbandoned by (simp add: count_list_app)
qed (use assms in simp_all)

lemma deliver_after_settled:
  assumes "registered w" and "finishingJob w" and "awaiting w = None"
  shows "registered (deliver e w) \<and> finishingJob (deliver e w) \<and> awaiting (deliver e w) = None \<and>
         count_list (log (deliver e w)) DeferredResolve = count_list (log w) DeferredResolve \<and>
         filter is_finalize_call (log (deliver e w)) = filter is_finalize_call (log w)"
proof (cases e)
  case (EngineCompleted err result)
  then show ?thesis using assms by (cases err) (simp_all add: Let_def count_list_app)
qed (use assms in simp_all)

lemma deliver_all_after_settled:
  assumes "registered w" and "finishingJob w" and "awaiting w = None"
  shows "count_list (log (deliver_all evs w)) DeferredResolve = count_list (log w) DeferredResolve \<and>
         filter is_finalize_call (log (deliver_all evs w)) = filter is_finalize_call (log w)"
  using assms
proof (induction evs arbitrary: w)
  case Nil
  show ?case by (simp add: deliver_all_def)
next
  case (Cons e evs)
  from deliver_after_settled [OF Cons.prems, of e] Cons.IH [of "deliver e w"]
  show ?case by (simp add: deliver_all_Cons)
qed

lemma deliver_while_waiting:
  assumes "registered w" and "finishingJob w" and "awaiting w = Some a"
  shows "registered (deliver e w) \<and> finishingJob (deliver e w) \<and>
         filter is_finalize_call (log (deliver e w)) = filter is_finalize_call (log w) \<and>
         (if (case a of AwaitDrain \<Rightarrow> (\<exists>out. e = DrainDone out)
                      | AwaitFinishJob \<Rightarrow> (\<exists>out. e = FinishJobDone out))
          then awaiting (deliver e w) = None \<and>
               count_list (log (deliver e w)) DeferredResolve = Suc (count_list (log w) DeferredResolve)
          else awaiting (deliver e w) = Some a \<and>
               count_list (log (deliver e w)) DeferredResolve = count_list (log w) DeferredResolve)"
proof (cases e)
  case (EngineCompleted err result)
  then show ?thesis using assms by (cases err; cases a) (simp_all add: Let_def count_list_app)
next
  case JobAbandoned
  then show ?thesis using assms by (cases a) simp_all
next
  case (DrainDone out)
  then show ?thesis using assms by (cases a) (simp_all add: count_list_app)
next
  case (FinishJobDone out)
  then show ?thesis using assms
    by (cases a) (auto simp: count_list_app split: settle.splits option.splits)
qed

lemma deliver_all_while_waiting:
  assumes "registered w" and "finishingJob w" and "awaiting w = Some a"
  shows "filter is_finalize_call (log (deliver_all evs w)) = filter is_finalize_call (log w) \<and>
         count_list (log (deliver_all evs w)) DeferredResolve
           = count_list (log w) DeferredResolve
             + (if \<exists>e \<in> set evs. (case a of AwaitDrain \<Rightarrow> (\<exists>out. e = DrainDone out)
                                          | AwaitFinishJob \<Rightarrow> (\<exists>out. e = FinishJobDone out))
                then 1 else 0)"
  using assms
proof (induction evs arbitrary: w)
  case Nil
  show ?case by (simp add: deliver_all_def)
next
  case (Cons e evs)
  let ?m = "\<lambda>e. (case a of AwaitDrain \<Rightarrow> (\<exists>out. e = DrainDone out)
                           | AwaitFinishJob \<Rightarrow> (\<exists>out. e = FinishJobDone out))"
  note st = deliver_while_waiting [OF Cons.prems, of e]
  show ?case
  proof (cases "?m e")
    case True
    with st have "registered (deliver e w)" "finishingJob (deliver e w)" "awaiting (deliver e w) = None"
      and c: "count_list (log (deliver e w)) DeferredResolve = Suc (count_list (log w) DeferredResolve)"
      and f: "filter is_finalize_call (log (deliver e w)) = filter is_finalize_call (log w)"
      by simp_all
    from deliver_all_after_settled [OF this(1,2,3), of evs] c f True
    show ?thesis by (simp add: deliver_all_Cons)
  next
    case False
    with st have "registered (deliver e w)" "finishingJob (deliver e w)" "awaiting (deliver e w) = Some a"
      and c: "count_list (log (deliver e w)) DeferredResolve = count_list (log w) DeferredResolve"
      and f: "filter is_finalize_call (log (deliver e w)) = filter is_finalize_call (log w)"
      by simp_all
    from Cons.IH [OF this(1,2,3)] c f False
    show ?thesis by (simp add: deliver_all_Cons)
  qed
qed

text \<open>
  Claim C1. After \<open>run\<close> has returned for a job message, let any events arrive in any
  order, and let \<open>t\<close> be the first trigger among them (the job runner's completion or
  JobAbandoned; the other trigger may come after it or not at all). Then the finalize
  calls made are exactly the one call of \<open>t\<close>'s path: the drain for JobAbandoned,
  \<open>ctx.finishJob\<close> with the result for the completion. The deferred is resolved exactly
  once if the promise of that call settles after \<open>t\<close>, fulfilled or rejected, and not at
  all as long as it has not. A trigger that finds \<open>finishingJob\<close> set only adds log lines.
\<close>

theorem finalize_exactly_once:
  assumes "run env msg = Returned w0" and "messageType msg = ''job''"
    and "evs = before @ t # after" and "\<forall>e \<in> set before. \<not> is_trigger e" and "is_trigger t"
  shows "filter is_finalize_call (log (deliver_all evs w0)) = finalize_call_of t \<and>
         length (finalize_call_of t) = 1 \<and>
         count_list (log (deliver_all evs w0)) DeferredResolve
           = (if \<exists>s \<in> set after. settles_for t s then 1 else 0) \<and>
         (\<forall>w e. finishingJob w \<and> is_trigger e \<longrightarrow>
            (\<exists>l. deliver e (w::'r worker) = w\<lparr>log := log w @ l\<rparr> \<and> list_all is_logging l))"
proof -
  note i = run_job_initial [OF assms(1,2)]
  have b: "deliver_all before w0 = w0"
    using i assms(4) by (simp add: deliver_all_before_trigger)
  from i have r0: "registered w0" and f0: "\<not> finishingJob w0" and a0: "awaiting w0 = None"
    and c0: "count_list (log w0) DeferredResolve = 0" and l0: "filter is_finalize_call (log w0) = []"
    by simp_all
  from deliver_first_trigger [OF r0 f0 a0 assms(5)]
  obtain a where r1: "registered (deliver t w0)" and f1: "finishingJob (deliver t w0)"
    and a1: "awaiting (deliver t w0) = Some a"
    and m: "\<forall>s. settles_for t s = (case a of AwaitDrain \<Rightarrow> (\<exists>out. s = DrainDone out)
                                       | AwaitFinishJob \<Rightarrow> (\<exists>out. s = FinishJobDone out))"
    and c1: "count_list (log (deliver t w0)) DeferredResolve = 0"
    and l1: "filter is_finalize_call (log (deliver t w0)) = finalize_call_of t"
    using c0 l0 by auto
  have e: "deliver_all evs w0 = deliver_all after (deliver t w0)"
    using assms(3) b by (simp add: deliver_all_append deliver_all_Cons)
  have n: "length (finalize_call_of t) = 1" using assms(5) by (cases t) simp_all
  have late: "\<forall>w e. finishingJob w \<and> is_trigger e \<longrightarrow>
            (\<exists>l. deliver e (w::'r worker) = w\<lparr>log := log w @ l\<rparr> \<and> list_all is_logging l)"
    using late_trigger_only_logs by blast
  from deliver_all_while_waiting [OF r1 f1 a1, of after] m c1 l1 e n
  have "filter is_finalize_call (log (deliver_all evs w0)) = finalize_call_of t \<and>
         length (finalize_call_of t) = 1 \<and>
         count_list (log (deliver_all evs w0)) DeferredResolve
           = (if \<exists>s \<in> set after. settles_for t s then 1 else 0)"
    by simp
  with late show ?thesis by blast
qed

theorem finalize_exactly_once_witness:
  "run ex_worker_env ex_msg = Returned ex_worker \<and> messageType ex_msg = ''job'' \<and>
   filter is_finalize_call
     (log (deliver_all [JobAbandoned, EngineCompleted None 0, DrainDone Fulfilled] ex_worker))
     = [CallDrain] \<and>
   count_list (log (deliver_all [JobAbandoned, EngineCompleted None 0, DrainDone Fulfilled] ex_worker))
     DeferredResolve = 1 \<and>
   filter is_finalize_call
     (log (deliver_all [EngineCompleted (Some ''boom'') 1, JobAbandoned,
                        FinishJobDone (RejectedWith (Some ''gone''))] ex_worker))
     = [CallFinishJob 1] \<and>
   count_list
     (log (deliver_all [EngineCompleted (Some ''boom'') 1, JobAbandoned,
                        FinishJobDone (RejectedWith (Some ''gone''))] ex_worker))
     DeferredResolve = 1 \<and>
   count_list (log (deliver_all [FinishJobDone Fulfilled, EngineCompleted None 0] ex_worker))
     DeferredResolve = 0"
proof -
  have m: "messageType ex_msg = ''job''" by (simp add: ex_msg_def)
  have a: "[JobAbandoned, EngineCompleted None 0, DrainDone Fulfilled]
             = [] @ JobAbandoned # [EngineCompleted None (0::nat), DrainDone Fulfilled]"
    and b: "[EngineCompleted (Some ''boom'') 1, JobAbandoned, FinishJobDone (RejectedWith (Some ''gone''))]
             = [] @ EngineCompleted (Some ''boom'') (1::nat)
                 # [JobAbandoned, FinishJobDone (RejectedWith (Some ''gone''))]"
    and c: "[FinishJobDone Fulfilled, EngineCompleted None 0]
             = [FinishJobDone Fulfilled] @ EngineCompleted None (0::nat) # []"
    by simp_all
  have a1: "filter is_finalize_call
     (log (deliver_all [JobAbandoned, EngineCompleted None 0, DrainDone Fulfilled] ex_worker))
     = [CallDrain]"
    using finalize_exactly_once [OF run_ex_msg m a, THEN conjunct1] by simp
  have a2: "count_list (log (deliver_all [JobAbandoned, EngineCompleted None 0, DrainDone Fulfilled] ex_worker))
     DeferredResolve = 1"
    using finalize_exactly_once [OF run_ex_msg m a, THEN conjunct2, THEN conjunct2, THEN conjunct1]
    by simp
  have b1: "filter is_finalize_call
     (log (deliver_all [EngineCompleted (Some ''boom'') 1, JobAbandoned,
                        FinishJobDone (RejectedWith (Some ''gone''))] ex_worker))
     = [CallFinishJob 1]"
    using finalize_exactly_once [OF run_ex_msg m b, THEN conjunct1] by simp
  have b2: "count_list
     (log (deliver_all [EngineCompleted (Some ''boom'') 1, JobAbandoned,
                        FinishJobDone (RejectedWith (Some ''gone''))] ex_worker))
     DeferredResolve = 1"
    using finalize_exactly_once [OF run_ex_msg m b, THEN conjunct2, THEN conjunct2, THEN conjunct1]
    by simp
  have c2: "count_list (log (deliver_all [FinishJobDone Fulfilled, EngineCompleted None 0] ex_worker))
     DeferredResolve = 0"
    using finalize_exactly_once [OF run_ex_msg m c, THEN conjunct2, THEN conjunct2, THEN conjunct1]
    by simp
  from run_ex_msg m a1 a2 b1 b2 c2 show ?thesis by blast
qed

subsection \<open>Resolving after the finalize step\<close>

lemma finalize_settled_mono: "finalize_settled l \<Longrightarrow> set l \<subseteq> set m \<Longrightarrow> finalize_settled m"
  unfolding finalize_settled_def by blast

lemma resolve_guarded_quiet:
  assumes "resolve_guarded l" and "DeferredResolve \<notin> set m"
  shows "resolve_guarded (l @ m)"
  unfolding resolve_guarded_def
proof (intro allI impI)
  fix pre post assume e: "l @ m = pre @ DeferredResolve # post"
  then obtain us where "(l = pre @ us \<and> us @ m = DeferredResolve # post) \<or>
                        (l @ us = pre \<and> m = us @ DeferredResolve # post)"
    by (auto simp: append_eq_append_conv2)
  then show "finalize_settled pre"
  proof
    assume a: "l = pre @ us \<and> us @ m = DeferredResolve # post"
    show ?thesis
    proof (cases us)
      case Nil
      with a assms(2) show ?thesis by auto
    next
      case (Cons u us')
      with a have "l = pre @ DeferredResolve # us'" by simp
      with assms(1) show ?thesis unfolding resolve_guarded_def by blast
    qed
  next
    assume "l @ us = pre \<and> m = us @ DeferredResolve # post"
    with assms(2) show ?thesis by auto
  qed
qed

lemma resolve_guarded_resolve:
  assumes "resolve_guarded l" and "finalize_settled l"
  shows "resolve_guarded (l @ [DeferredResolve])"
  unfolding resolve_guarded_def
proof (intro allI impI)
  fix pre post assume e: "l @ [DeferredResolve] = pre @ DeferredResolve # post"
  show "finalize_settled pre"
  proof (cases post rule: rev_cases)
    case Nil
    with e have "pre = l" by simp
    with assms(2) show ?thesis by simp
  next
    case (snoc post' x)
    with e have "l = pre @ DeferredResolve # post'" by simp
    with assms(1) show ?thesis unfolding resolve_guarded_def by blast
  qed
qed

lemma deliver_resolve_inv:
  assumes "resolve_inv w"
  shows "resolve_inv (deliver e w)"
proof (cases e)
  case (EngineCompleted err result)
  let ?l = "[TraceCallback ''job.run'', LogStatus (''Job Completed: '' @ w_jobName w)]
              @ (case err of Some m \<Rightarrow> [LogError (''Error: '' @ m)] | None \<Rightarrow> [])"
  have q: "DeferredResolve \<notin> set ?l" "DeferredResolve \<notin> set (?l @ [CallFinishJob result])"
    by (auto split: option.splits)
  have g1: "resolve_guarded (log w @ ?l)"
    and g2: "resolve_guarded (log w @ ?l @ [CallFinishJob result])"
    using assms q resolve_guarded_quiet unfolding resolve_inv_def by blast+
  show ?thesis
  proof (cases "registered w")
    case False
    then show ?thesis using assms EngineCompleted by simp
  next
    case True
    show ?thesis
    proof (cases "finishingJob w")
      case True
      with \<open>registered w\<close> have "deliver e w = w\<lparr>log := log w @ ?l\<rparr>"
        using EngineCompleted by (simp add: Let_def)
      then show ?thesis using assms g1 by (auto simp: resolve_inv_def)
    next
      case False
      with \<open>registered w\<close> have "deliver e w = w\<lparr>finishingJob := True, awaiting := Some AwaitFinishJob,
           log := log w @ ?l @ [CallFinishJob result]\<rparr>"
        using EngineCompleted by (simp add: Let_def)
      then show ?thesis using g2 by (auto simp: resolve_inv_def)
    qed
  qed
next
  case JobAbandoned
  have "resolve_guarded (log w @ [LogError ''Job abandoned by the server.'', CallDrain])"
    using assms resolve_guarded_quiet [of "log w" "[LogError ''Job abandoned by the server.'', CallDrain]"]
    unfolding resolve_inv_def by simp
  then show ?thesis using assms JobAbandoned by (auto simp: resolve_inv_def)
next
  case (DrainDone out)
  show ?thesis
  proof (cases "awaiting w = Some AwaitDrain")
    case False
    then show ?thesis using assms DrainDone by simp
  next
    case True
    let ?m = "[DrainSettled out, TraceWrite ''Service channel drained'']"
    have c: "CallDrain \<in> set (log w)" using assms True by (simp add: resolve_inv_def)
    have "resolve_guarded (log w @ ?m)"
      using assms resolve_guarded_quiet [of "log w" ?m] unfolding resolve_inv_def by simp
    moreover have "finalize_settled (log w @ ?m)"
      using c unfolding finalize_settled_def by auto
    ultimately have "resolve_guarded ((log w @ ?m) @ [DeferredResolve])"
      by (rule resolve_guarded_resolve)
    then show ?thesis using True DrainDone by (simp add: resolve_inv_def)
  qed
next
  case (FinishJobDone out)
  show ?thesis
  proof (cases "awaiting w = Some AwaitFinishJob")
    case False
    then show ?thesis using assms FinishJobDone by simp
  next
    case True
    let ?m = "[FinishJobSettled out, TraceCallback ''ctx.finishJob'',
                  LogStatus (''Job Finished: '' @ w_jobName w)]
               @ (case out of
                    RejectedWith (Some m) \<Rightarrow> [LogError (''Error: '' @ m)]
                  | _ \<Rightarrow> [])"
    have q: "DeferredResolve \<notin> set ?m" by (auto split: settle.splits option.splits)
    obtain result where c: "CallFinishJob result \<in> set (log w)"
      using assms True by (auto simp: resolve_inv_def)
    have "resolve_guarded (log w @ ?m)"
      using assms resolve_guarded_quiet [OF _ q, of "log w"] unfolding resolve_inv_def by simp
    moreover have "finalize_settled (log w @ ?m)"
      using c unfolding finalize_settled_def by auto
    ultimately have "resolve_guarded ((log w @ ?m) @ [DeferredResolve])"
      by (rule resolve_guarded_resolve)
    then show ?thesis using True FinishJobDone by (simp add: resolve_inv_def)
  qed
qed

lemma deliver_all_resolve_inv: "resolve_inv w \<Longrightarrow> resolve_inv (deliver_all evs w)"
  unfolding deliver_all_def
  by (induction evs arbitrary: w) (simp_all add: deliver_resolve_inv)

lemma not_resolved_guarded: "DeferredResolve \<notin> set l \<Longrightarrow> resolve_guarded l"
  unfolding resolve_guarded_def by auto

text \<open>
  Claim C2. After \<open>run\<close> has returned for a job message, whatever events arrive: before
  every resolve of the deferred, the log holds the drain call and the settling of its
  promise, or the call of \<open>ctx.finishJob\<close> and the settling of its promise, fulfilled
  or rejected.
\<close>

theorem resolve_only_after_finalize:
  assumes "run env msg = Returned w0" and "messageType msg = ''job''"
    and "log (deliver_all evs w0) = pre @ DeferredResolve # post"
  shows "finalize_settled pre"
proof -
  have "DeferredResolve \<notin> set (log w0)" "awaiting w0 = None"
    using assms(1,2) by (auto simp: run_def prelude_log_def split: prod.splits option.splits)
  then have "resolve_inv w0" by (simp add: resolve_inv_def not_resolved_guarded)
  then have "resolve_inv (deliver_all evs w0)" by (rule deliver_all_resolve_inv)
  with assms(3) show ?thesis unfolding resolve_inv_def resolve_guarded_def by blast
qed

theorem resolve_only_after_finalize_witness:
  "run ex_worker_env ex_msg = Returned ex_worker \<and> messageType ex_msg = ''job'' \<and>
   log (deliver_all [EngineCompleted (Some ''boom'') 1, JobAbandoned, FinishJobDone (RejectedWith (Some ''gone''))] ex_worker)
     = (log ex_worker @ [TraceCallback ''job.run'', LogStatus ''Job Completed: J'', LogError ''Error: boom'',
          CallFinishJob 1, FinishJobSettled (RejectedWith (Some ''gone'')), TraceCallback ''ctx.finishJob'',
          LogStatus ''Job Finished: J'', LogError ''Error: gone'']) @ DeferredResolve # [] \<and>
   finalize_settled (log ex_worker @ [TraceCallback ''job.run'', LogStatus ''Job Completed: J'', LogError ''Error: boom'',
          CallFinishJob 1, FinishJobSettled (RejectedWith (Some ''gone'')), TraceCallback ''ctx.finishJob'',
          LogStatus ''Job Finished: J'', LogError ''Error: gone''])"
proof -
  have m: "messageType ex_msg = ''job''" by (simp add: ex_msg_def)
  have l: "log (deliver_all [EngineCompleted (Some ''boom'') 1, JobAbandoned, FinishJobDone (RejectedWith (Some ''gone''))] ex_worker)
     = (log ex_worker @ [TraceCallback ''job.run'', LogStatus ''Job Completed: J'', LogError ''Error: boom'',
          CallFinishJob 1, FinishJobSettled (RejectedWith (Some ''gone'')), TraceCallback ''ctx.finishJob'',
          LogStatus ''Job Finished: J'', LogError ''Error: gone'']) @ DeferredResolve # []"
    by (simp add: deliver_all_def ex_worker_def Let_def)
  from resolve_only_after_finalize [OF run_ex_msg m l] run_ex_msg m l show ?thesis by blast
qed

end
